theory Spec2Isabelle
  imports Main "HOL-Library.Multiset" "HOL-Library.Sublist"
begin

section \<open>ClearSend quick-clean command: data model\<close>

text \<open>
  The development embeds \<^verbatim>\<open>src/src/commands/commands.js\<close>.

  JavaScript strings are modelled as \<^typ>\<open>string\<close>; a \<^typ>\<open>char\<close> stands for one
  code unit below 256 (the ISO-8859-1 range of UTF-16), which is where e-mail
  addresses live.  A property that the code guards with \<^verbatim>\<open>x || ""\<close> or
  \<^verbatim>\<open>x ? ... : ...\<close> is optional in the model (\<open>None\<close> is \<^verbatim>\<open>undefined\<close> or
  \<^verbatim>\<open>null\<close>); every other property has the type the code uses it at.
\<close>

text \<open>An entry of the arrays the host hands out: \<^verbatim>\<open>{displayName, emailAddress}\<close>.\<close>

record recipient =
  displayName :: "string option"
  emailAddress :: "string option"

text \<open>
  \<^verbatim>\<open>x || ""\<close> on an optional string: \<^verbatim>\<open>undefined\<close>, \<^verbatim>\<open>null\<close> and the empty
  string are falsy and all yield the empty string.
\<close>

fun orEmpty :: "string option \<Rightarrow> string" where
  "orEmpty None = []"
| "orEmpty (Some s) = s"

text \<open>
  \<^verbatim>\<open>String.prototype.toLowerCase\<close> on code units below 256: the letters A to Z
  and the upper-case letters of the range 0xC0 to 0xDE (the multiplication sign
  0xD7 apart) move up by 32, every other code unit stays.
\<close>

definition lowerUnit :: "char \<Rightarrow> char" where
  "lowerUnit c =
     (let n = (of_char c :: nat) in
      if (65 \<le> n \<and> n \<le> 90) \<or> (192 \<le> n \<and> n \<le> 222 \<and> n \<noteq> 215)
      then char_of (n + 32) else c)"

definition toLowerCase :: "string \<Rightarrow> string" where
  "toLowerCase s = map lowerUnit s"

section \<open>Deduplication\<close>

text \<open>
  The key both dedupe functions compute for an entry:
  \<^verbatim>\<open>(recipient.emailAddress || "").toLowerCase()\<close>.
\<close>

definition emailKey :: "recipient \<Rightarrow> string" where
  "emailKey r = toLowerCase (orEmpty (emailAddress r))"

text \<open>
  \<^verbatim>\<open>deduplicateWithinArray\<close>: a \<^verbatim>\<open>filter\<close> whose callback reads and extends the
  set \<^verbatim>\<open>seen\<close>.  The set is threaded through the traversal.
\<close>

fun dedupeFilter :: "string set \<Rightarrow> recipient list \<Rightarrow> recipient list" where
  "dedupeFilter seen [] = []"
| "dedupeFilter seen (r # rs) =
     (let email = emailKey r in
      if email \<in> seen then dedupeFilter seen rs
      else r # dedupeFilter (insert email seen) rs)"

definition deduplicateWithinArray :: "recipient list \<Rightarrow> recipient list" where
  "deduplicateWithinArray recipients = dedupeFilter {} recipients"

text \<open>
  One \<^verbatim>\<open>forEach\<close> of \<^verbatim>\<open>deduplicateAllRecipients\<close>: the state is the shared set
  \<^verbatim>\<open>allEmails\<close> and the array being filled by \<^verbatim>\<open>push\<close>.
\<close>

fun claimEach :: "recipient list \<Rightarrow> string set \<times> recipient list \<Rightarrow> string set \<times> recipient list" where
  "claimEach [] st = st"
| "claimEach (r # rs) (allEmails, final) =
     (let email = emailKey r in
      if email \<notin> allEmails then claimEach rs (insert email allEmails, final @ [r])
      else claimEach rs (allEmails, final))"

record recipientLists =
  to :: "recipient list"
  cc :: "recipient list"
  bcc :: "recipient list"

definition deduplicateAllRecipients ::
  "recipient list \<Rightarrow> recipient list \<Rightarrow> recipient list \<Rightarrow> recipientLists" where
  "deduplicateAllRecipients toRecipients ccRecipients bccRecipients =
     (let uniqueTo = deduplicateWithinArray toRecipients;
          uniqueCc = deduplicateWithinArray ccRecipients;
          uniqueBcc = deduplicateWithinArray bccRecipients;
          (allEmails1, finalTo) = claimEach uniqueTo ({}, []);
          (allEmails2, finalCc) = claimEach uniqueCc (allEmails1, []);
          (allEmails3, finalBcc) = claimEach uniqueBcc (allEmails2, [])
      in \<lparr>to = finalTo, cc = finalCc, bcc = finalBcc\<rparr>)"

subsection \<open>The two phases in the specification's words\<close>

text \<open>
  Phase (a), following the specification: within one list, the entry at position \<open>i\<close>
  is a later duplicate when an earlier entry has the same lower-cased email; those
  entries are dropped and the others stay in their positions.
\<close>

definition isLaterDuplicate :: "recipient list \<Rightarrow> nat \<Rightarrow> bool" where
  "isLaterDuplicate rs i = (emailKey (rs ! i) \<in> emailKey ` set (take i rs))"

definition perFieldDedupe :: "recipient list \<Rightarrow> recipient list" where
  "perFieldDedupe rs =
     map (\<lambda>i. rs ! i) (filter (\<lambda>i. \<not> isLaterDuplicate rs i) [0..<length rs])"

text \<open>
  Phase (b), following the specification: primary keeps everything; an entry of copy
  survives when no entry kept in primary has its normalized email; an entry of
  blind-copy survives when no entry kept in primary or copy has it.
\<close>

definition crossFieldDedupe ::
  "recipient list \<Rightarrow> recipient list \<Rightarrow> recipient list \<Rightarrow> recipientLists" where
  "crossFieldDedupe primary copy blindCopy =
     (let keptTo = primary;
          keptCc = filter (\<lambda>r. emailKey r \<notin> emailKey ` set keptTo) copy;
          keptBcc = filter (\<lambda>r. emailKey r \<notin> emailKey ` (set keptTo \<union> set keptCc)) blindCopy
      in \<lparr>to = keptTo, cc = keptCc, bcc = keptBcc\<rparr>)"

definition dedupeSpec ::
  "recipient list \<Rightarrow> recipient list \<Rightarrow> recipient list \<Rightarrow> recipientLists" where
  "dedupeSpec t c b =
     crossFieldDedupe (perFieldDedupe t) (perFieldDedupe c) (perFieldDedupe b)"

text \<open>An entry without an extractable email: the property is missing or empty.\<close>

definition noEmail :: "recipient \<Rightarrow> bool" where
  "noEmail r = (orEmpty (emailAddress r) = [])"

section \<open>Regular expressions\<close>

text \<open>
  The fragment of JavaScript regular expressions that \<^verbatim>\<open>emailRegex\<close> uses: character
  classes, sequencing, \<^verbatim>\<open>?\<close>, \<^verbatim>\<open>*\<close>, \<^verbatim>\<open>+\<close> and the bounded repetition
  \<^verbatim>\<open>{0,n}\<close>.  \<open>Never\<close> and \<open>Eps\<close> (no string, the empty string) are what
  derivatives need; \<open>Opt\<close> is \<^verbatim>\<open>?\<close> and \<open>Many1\<close> is \<^verbatim>\<open>+\<close>.

  A pattern anchored by \<^verbatim>\<open>^\<close> and \<^verbatim>\<open>$\<close>, without flags, back-references or
  look-around, is matched by backtracking over every way to split the string:
  \<^verbatim>\<open>test\<close> answers whether the whole string belongs to the language of the pattern.
  \<open>rx_test\<close> decides that by derivatives.
\<close>

datatype rexp =
    Never
  | Eps
  | Cls "char \<Rightarrow> bool"
  | Alt rexp rexp
  | Seq rexp rexp
  | Star rexp
  | Upto nat rexp

definition Opt :: "rexp \<Rightarrow> rexp" where
  "Opt r = Alt r Eps"

definition Many1 :: "rexp \<Rightarrow> rexp" where
  "Many1 r = Seq r (Star r)"

definition Chr :: "char \<Rightarrow> rexp" where
  "Chr c = Cls (\<lambda>x. x = c)"

fun nullable :: "rexp \<Rightarrow> bool" where
  "nullable Never = False"
| "nullable Eps = True"
| "nullable (Cls p) = False"
| "nullable (Alt r s) = (nullable r \<or> nullable s)"
| "nullable (Seq r s) = (nullable r \<and> nullable s)"
| "nullable (Star r) = True"
| "nullable (Upto n r) = True"

fun deriv :: "char \<Rightarrow> rexp \<Rightarrow> rexp" where
  "deriv c Never = Never"
| "deriv c Eps = Never"
| "deriv c (Cls p) = (if p c then Eps else Never)"
| "deriv c (Alt r s) = Alt (deriv c r) (deriv c s)"
| "deriv c (Seq r s) =
     (if nullable r then Alt (Seq (deriv c r) s) (deriv c s) else Seq (deriv c r) s)"
| "deriv c (Star r) = Seq (deriv c r) (Star r)"
| "deriv c (Upto 0 r) = Never"
| "deriv c (Upto (Suc n) r) = Seq (deriv c r) (Upto n r)"

text \<open>\<^verbatim>\<open>regex.test(s)\<close> for an anchored pattern.\<close>

definition rx_test :: "rexp \<Rightarrow> string \<Rightarrow> bool" where
  "rx_test r s = nullable (foldl (\<lambda>q c. deriv c q) r s)"

section \<open>Validation\<close>

text \<open>The character classes of \<^verbatim>\<open>emailRegex\<close>, by code unit.\<close>

definition inRange :: "nat \<Rightarrow> nat \<Rightarrow> char \<Rightarrow> bool" where
  "inRange lo hi c = (lo \<le> of_char c \<and> (of_char c :: nat) \<le> hi)"

text \<open>\<^verbatim>\<open>[a-zA-Z0-9]\<close>\<close>

definition isAlnum :: "char \<Rightarrow> bool" where
  "isAlnum c = (inRange 97 122 c \<or> inRange 65 90 c \<or> inRange 48 57 c)"

text \<open>\<^verbatim>\<open>[a-zA-Z0-9-]\<close>\<close>

definition isAlnumHyphen :: "char \<Rightarrow> bool" where
  "isAlnumHyphen c = (isAlnum c \<or> c = CHR ''-'')"

text \<open>
  The class of the local part: letters, digits and the punctuation
  \<^verbatim>\<open>. ! # $ % & ' * + / = ? ^ _ ` { | } ~ -\<close> (the apostrophe is code unit 39, the
  backquote 96).
\<close>

definition isLocalChar :: "char \<Rightarrow> bool" where
  "isLocalChar c =
     (isAlnum c \<or>
      c \<in> set [CHR ''.'', CHR ''!'', CHR ''#'', CHR ''$'', CHR ''%'', CHR ''&'', CHR 39,
                CHR ''*'', CHR ''+'', CHR ''/'', CHR ''='', CHR ''?'', CHR ''^'', CHR ''_'',
                CHR 96, CHR ''{'', CHR ''|'', CHR ''}'', CHR ''~'', CHR ''-''])"

text \<open>A domain label: \<^verbatim>\<open>[a-zA-Z0-9](?:[a-zA-Z0-9-]{0,61}[a-zA-Z0-9])?\<close>\<close>

definition labelRegex :: rexp where
  "labelRegex = Seq (Cls isAlnum) (Opt (Seq (Upto 61 (Cls isAlnumHyphen)) (Cls isAlnum)))"

text \<open>
  The pattern of the source is the class of the local part repeated with \<^verbatim>\<open>+\<close>, an
  \<^verbatim>\<open>@\<close>, one label, and \<^verbatim>\<open>(?:\.label)*\<close>; the part after the \<^verbatim>\<open>@\<close> is named
  \<open>domainRegex\<close> here.
\<close>

definition domainRegex :: rexp where
  "domainRegex = Seq labelRegex (Star (Seq (Chr (CHR ''.'')) labelRegex))"

definition emailRegex :: rexp where
  "emailRegex = Seq (Many1 (Cls isLocalChar)) (Seq (Chr (CHR ''@'')) domainRegex)"

text \<open>
  \<^verbatim>\<open>s.split(sep)\<close> for a separator of one code unit: the pieces between the
  separators, one more than there are separators.
\<close>

fun splitOn :: "char \<Rightarrow> string \<Rightarrow> string list" where
  "splitOn sep [] = [[]]"
| "splitOn sep (c # cs) =
     (if c = sep then [] # splitOn sep cs
      else (case splitOn sep cs of
              [] \<Rightarrow> [[c]]
            | piece # pieces \<Rightarrow> (c # piece) # pieces))"

text \<open>\<^verbatim>\<open>s.includes(pat)\<close>: \<open>pat\<close> occurs somewhere in \<open>s\<close>.\<close>

fun str_includes :: "string \<Rightarrow> string \<Rightarrow> bool" where
  "str_includes [] pat = (pat = [])"
| "str_includes (c # cs) pat = (prefix pat (c # cs) \<or> str_includes cs pat)"

text \<open>
  The callback of \<^verbatim>\<open>validateAndFilterRecipients\<close>, after its first line has
  computed \<^verbatim>\<open>email\<close>.  An \<^verbatim>\<open>email\<close> here is always a string, so of the first
  test only \<^verbatim>\<open>!email\<close> remains.  The test of the length of \<^verbatim>\<open>email.split("@")\<close>
  and the destructuring that follows it are one \<open>case\<close>.
\<close>

definition isValidEmail :: "string \<Rightarrow> bool" where
  "isValidEmail email =
     (if email = [] then False
      else if \<not> str_includes email ''@'' then False
      else (case splitOn (CHR ''@'') email of
              [localPart, domainPart] \<Rightarrow>
                if localPart = [] \<or> domainPart = [] then False
                else if \<not> str_includes domainPart ''.'' then False
                else if str_includes email ''..'' then False
                else rx_test emailRegex email
            | _ \<Rightarrow> False))"

text \<open>The callback: \<^verbatim>\<open>const email = recipient.emailAddress || ""\<close>, then the tests.\<close>

definition validRecipient :: "recipient \<Rightarrow> bool" where
  "validRecipient recipient = isValidEmail (orEmpty (emailAddress recipient))"

definition validateAndFilterRecipients :: "recipient list \<Rightarrow> recipient list" where
  "validateAndFilterRecipients recipients = filter validRecipient recipients"

section \<open>Sorting\<close>

text \<open>
  \<^verbatim>\<open>localeCompare\<close> is a built-in whose order depends on the locale of the host; the
  model takes it as a parameter: negative, zero or positive as the first string sorts
  before, with or after the second.
\<close>

type_synonym collator = "string \<Rightarrow> string \<Rightarrow> int"

text \<open>\<^verbatim>\<open>(a.displayName || a.emailAddress || "").toLowerCase()\<close>\<close>

definition sortName :: "recipient \<Rightarrow> string" where
  "sortName a =
     toLowerCase (if orEmpty (displayName a) \<noteq> [] then orEmpty (displayName a)
                  else orEmpty (emailAddress a))"

text \<open>
  \<^verbatim>\<open>Array.prototype.sort\<close> with a comparison function is a stable sort: an element
  goes before the first element of the sorted rest that it does not compare greater
  than.
\<close>

fun insertBy :: "('a \<Rightarrow> 'a \<Rightarrow> int) \<Rightarrow> 'a \<Rightarrow> 'a list \<Rightarrow> 'a list" where
  "insertBy cmp x [] = [x]"
| "insertBy cmp x (y # ys) = (if cmp x y \<le> 0 then x # y # ys else y # insertBy cmp x ys)"

definition arraySort :: "('a \<Rightarrow> 'a \<Rightarrow> int) \<Rightarrow> 'a list \<Rightarrow> 'a list" where
  "arraySort cmp xs = foldr (insertBy cmp) xs []"

definition sortRecipientsAlphabetically :: "collator \<Rightarrow> recipient list \<Rightarrow> recipient list" where
  "sortRecipientsAlphabetically localeCompare recipients =
     arraySort (\<lambda>a b. localeCompare (sortName a) (sortName b)) recipients"

text \<open>
  A collator to run examples with: code units compared one by one, a proper prefix
  first.
\<close>

fun codeUnitCompare :: collator where
  "codeUnitCompare [] [] = 0"
| "codeUnitCompare [] (d # t) = - 1"
| "codeUnitCompare (c # s) [] = 1"
| "codeUnitCompare (c # s) (d # t) =
     (if (of_char c :: nat) < of_char d then - 1
      else if (of_char d :: nat) < of_char c then 1
      else codeUnitCompare s t)"

section \<open>The quick-clean command\<close>

text \<open>
  The object stored under \<^verbatim>\<open>clearSendSettings\<close>.  \<^verbatim>\<open>stepOrder\<close>,
  \<^verbatim>\<open>orgDomain\<close> and \<^verbatim>\<open>internalDomains\<close> are read through \<^verbatim>\<open>||\<close>.
\<close>

record settings =
  enabledSteps :: "string list"
  stepOrder :: "string list option"
  orgDomain :: "string option"
  internalDomains :: "string list option"


text \<open>
  \<^verbatim>\<open>orderedSteps.filter((step) => settings.enabledSteps.includes(step))\<close> with
  \<^verbatim>\<open>orderedSteps = settings.stepOrder || settings.enabledSteps\<close>.
\<close>

definition enabledStepsInOrder :: "settings \<Rightarrow> string list" where
  "enabledStepsInOrder s =
     (let orderedSteps = (case stepOrder s of Some order \<Rightarrow> order | None \<Rightarrow> enabledSteps s)
      in filter (\<lambda>step. step \<in> set (enabledSteps s)) orderedSteps)"

text \<open>
  The \<^verbatim>\<open>map\<close> callback that turns an entry into a string: the template
  \<^verbatim>\<open>`${r.displayName} <${r.emailAddress}>`\<close> when the display name is truthy (a missing
  address prints as \<^verbatim>\<open>undefined\<close>), the address itself otherwise.
\<close>

definition toRecipientString :: "recipient \<Rightarrow> string option" where
  "toRecipientString r =
     (if orEmpty (displayName r) \<noteq> []
      then Some (orEmpty (displayName r) @ '' <'' @
                 (case emailAddress r of None \<Rightarrow> ''undefined'' | Some e \<Rightarrow> e) @ ''>'')
      else emailAddress r)"

text \<open>
  White space and line terminators among the code units below 256: tab, line feed,
  vertical tab, form feed, carriage return, space and the no-break space.
  \<^verbatim>\<open>trim\<close> removes them from both ends; \<^verbatim>\<open>\s\<close> matches them.
\<close>

definition isWhiteSpace :: "char \<Rightarrow> bool" where
  "isWhiteSpace c = ((of_char c :: nat) \<in> set [9, 10, 11, 12, 13, 32, 160])"

definition trim :: "string \<Rightarrow> string" where
  "trim s = rev (dropWhile isWhiteSpace (rev (dropWhile isWhiteSpace s)))"

text \<open>
  The callback that filters \<^verbatim>\<open>settings.internalDomains\<close>:
  \<^verbatim>\<open>d && d !== "mydomain.com" && d.trim() !== ""\<close>.
\<close>

definition keepsDomain :: "string \<Rightarrow> bool" where
  "keepsDomain d = (d \<noteq> [] \<and> d \<noteq> ''mydomain.com'' \<and> trim d \<noteq> [])"

record userSettings =
  us_enabledSteps :: "string list"
  us_internalDomains :: "string list"
  us_orgDomain :: string

record payload =
  toStrings :: "string option list"
  ccStrings :: "string option list"
  bccStrings :: "string option list"
  userSettings :: userSettings

text \<open>The argument of \<^verbatim>\<open>processRecipients\<close>.\<close>

definition buildPayload :: "settings \<Rightarrow> recipientLists \<Rightarrow> payload" where
  "buildPayload s recipients =
     \<lparr>toStrings = map toRecipientString (to recipients),
      ccStrings = map toRecipientString (cc recipients),
      bccStrings = map toRecipientString (bcc recipients),
      userSettings =
        \<lparr>us_enabledSteps = enabledStepsInOrder s,
         us_internalDomains =
           filter keepsDomain (case internalDomains s of Some ds \<Rightarrow> ds | None \<Rightarrow> []),
         us_orgDomain = orEmpty (orgDomain s)\<rparr>\<rparr>"

text \<open>
  The three guarded blocks of the fallback of \<^verbatim>\<open>quickClean\<close>, as functions of the
  lists they replace.
\<close>

definition validateBlock :: "recipientLists \<Rightarrow> recipientLists" where
  "validateBlock processed =
     \<lparr>to = validateAndFilterRecipients (to processed),
      cc = validateAndFilterRecipients (cc processed),
      bcc = validateAndFilterRecipients (bcc processed)\<rparr>"

definition dedupeBlock :: "recipientLists \<Rightarrow> recipientLists" where
  "dedupeBlock processed =
     deduplicateAllRecipients (to processed) (cc processed) (bcc processed)"

definition sortBlock :: "collator \<Rightarrow> recipientLists \<Rightarrow> recipientLists" where
  "sortBlock localeCompare processed =
     \<lparr>to = sortRecipientsAlphabetically localeCompare (to processed),
      cc = sortRecipientsAlphabetically localeCompare (cc processed),
      bcc = sortRecipientsAlphabetically localeCompare (bcc processed)\<rparr>"

text \<open>
  The fallback, taken when the processors library is not loaded: the blocks in the
  order of the source, each behind its test of \<^verbatim>\<open>settings.enabledSteps.includes\<close>.
\<close>

definition fallbackClean :: "collator \<Rightarrow> settings \<Rightarrow> recipientLists \<Rightarrow> recipientLists" where
  "fallbackClean localeCompare s recipients =
     (let processed = recipients;
          processed =
            (if ''validate'' \<in> set (enabledSteps s) then validateBlock processed
             else processed);
          processed =
            (if ''dedupe'' \<in> set (enabledSteps s) then dedupeBlock processed
             else processed);
          processed =
            (if ''sort'' \<in> set (enabledSteps s) then sortBlock localeCompare processed
             else processed)
      in processed)"

subsection \<open>Results of the processors library\<close>

text \<open>
  \<^verbatim>\<open>convertToOfficeFormat\<close> accepts strings and objects.  For a string it matches
  \<^verbatim>\<open>/^(.+?)\s*<(.+)>$/\<close>: the dot matches every code unit but a line terminator.
\<close>

datatype procEntry = EntryString string | EntryObject recipient






subsection \<open>The host\<close>



text \<open>\<^verbatim>\<open>result.result\<close> of the processors library.\<close>

record processed =
  resultTo :: "procEntry list"
  resultCc :: "procEntry list"
  resultBcc :: "procEntry list"














subsection \<open>The orchestration in the specification's words\<close>

text \<open>
  Following the specification: the step names are taken in the order given; a name
  with no step function is skipped and leaves the state alone, any other is run on the
  current state, whose result becomes the state.  The step functions are the blocks
  that \<^verbatim>\<open>commands.js\<close> has.
\<close>

definition stepFunction :: "collator \<Rightarrow> string \<Rightarrow> (recipientLists \<Rightarrow> recipientLists) option" where
  "stepFunction localeCompare name =
     (if name = ''validate'' then Some validateBlock
      else if name = ''dedupe'' then Some dedupeBlock
      else if name = ''sort'' then Some (sortBlock localeCompare)
      else None)"

fun runInOrder :: "collator \<Rightarrow> string list \<Rightarrow> recipientLists \<Rightarrow> recipientLists" where
  "runInOrder localeCompare [] state = state"
| "runInOrder localeCompare (name # names) state =
     (case stepFunction localeCompare name of
        None \<Rightarrow> runInOrder localeCompare names state
      | Some step \<Rightarrow> runInOrder localeCompare names (step state))"


subsection \<open>Sorted lists and example entries\<close>

text \<open>
  A list is in sort order when no entry compares greater than a later one under the
  comparison function of \<^verbatim>\<open>sortRecipientsAlphabetically\<close>.
\<close>

definition inSortOrder :: "collator \<Rightarrow> recipient list \<Rightarrow> bool" where
  "inSortOrder localeCompare rs =
     sorted_wrt (\<lambda>a b. localeCompare (sortName a) (sortName b) \<le> 0) rs"

text \<open>The entry of a bare address, and the entry of a name with an address.\<close>

definition addressOnly :: "string \<Rightarrow> recipient" where
  "addressOnly e = \<lparr>displayName = Some [], emailAddress = Some e\<rparr>"

definition named :: "string \<Rightarrow> string \<Rightarrow> recipient" where
  "named n e = \<lparr>displayName = Some n, emailAddress = Some e\<rparr>"

text \<open>A blank string: nothing but white space.\<close>

definition blank :: "string \<Rightarrow> bool" where
  "blank d = list_all isWhiteSpace d"



section \<open>The language of a pattern\<close>

text \<open>
  What the strings are that a pattern matches; \<open>rx_test\<close> decides membership (lemma
  \<open>rx_test_iff\<close>).  These sets serve the proofs only.
\<close>

definition conc :: "string set \<Rightarrow> string set \<Rightarrow> string set" where
  "conc A B = {u @ v | u v. u \<in> A \<and> v \<in> B}"

inductive_set star :: "string set \<Rightarrow> string set" for A :: "string set" where
  star_empty: "[] \<in> star A"
| star_more: "u \<in> A \<Longrightarrow> v \<in> star A \<Longrightarrow> u @ v \<in> star A"

fun upto_lang :: "nat \<Rightarrow> string set \<Rightarrow> string set" where
  "upto_lang 0 A = {[]}"
| "upto_lang (Suc n) A = insert [] (conc A (upto_lang n A))"

fun lang :: "rexp \<Rightarrow> string set" where
  "lang Never = {}"
| "lang Eps = {[]}"
| "lang (Cls p) = {[c] | c. p c}"
| "lang (Alt r s) = lang r \<union> lang s"
| "lang (Seq r s) = conc (lang r) (lang s)"
| "lang (Star r) = star (lang r)"
| "lang (Upto n r) = upto_lang n (lang r)"

abbreviation keysOf :: "recipient list \<Rightarrow> string set" where
  "keysOf xs \<equiv> emailKey ` set xs"

section \<open>Properties of deduplication\<close>

lemma dedupeFilter_union:
  "dedupeFilter (S \<union> T) rs = filter (\<lambda>r. emailKey r \<notin> S) (dedupeFilter T rs)"
proof (induction rs arbitrary: T)
  case Nil
  show ?case by simp
next
  case (Cons r rs)
  let ?k = "emailKey r"
  have ins: "S \<union> insert ?k T = insert ?k (S \<union> T)" by blast
  consider "?k \<in> T" | "?k \<notin> T" "?k \<in> S" | "?k \<notin> T" "?k \<notin> S" by blast
  then show ?case
  proof cases
    case 1
    then show ?thesis using Cons.IH [of T] by (simp add: Let_def)
  next
    case 2
    then have "insert ?k (S \<union> T) = S \<union> T" by blast
    with 2 show ?thesis
      using Cons.IH [of T] Cons.IH [of "insert ?k T"] by (simp add: Let_def ins)
  next
    case 3
    then show ?thesis using Cons.IH [of "insert ?k T"] by (simp add: Let_def ins)
  qed
qed

lemma dedupeFilter_seen: "dedupeFilter S rs = filter (\<lambda>r. emailKey r \<notin> S) (dedupeFilter {} rs)"
  using dedupeFilter_union [of S "{}" rs] by simp

lemma keys_dedupeFilter: "emailKey ` set (dedupeFilter S rs) = emailKey ` set rs - S"
  by (induction rs arbitrary: S) (auto simp: Let_def)

lemma distinct_dedupeFilter: "distinct (map emailKey (dedupeFilter S rs))"
  by (induction rs arbitrary: S) (auto simp: Let_def keys_dedupeFilter)

lemma dedupeFilter_distinct:
  "distinct (map emailKey rs) \<Longrightarrow> dedupeFilter S rs = filter (\<lambda>r. emailKey r \<notin> S) rs"
proof (induction rs arbitrary: S)
  case Nil
  show ?case by simp
next
  case (Cons r rs)
  then have fresh: "emailKey r \<notin> emailKey ` set rs" and d: "distinct (map emailKey rs)" by auto
  have "filter (\<lambda>x. emailKey x \<notin> insert (emailKey r) S) rs = filter (\<lambda>x. emailKey x \<notin> S) rs"
  proof (rule filter_cong [OF refl])
    fix x assume "x \<in> set rs"
    then have "emailKey x \<noteq> emailKey r" using fresh by (metis imageI)
    then show "(emailKey x \<notin> insert (emailKey r) S) = (emailKey x \<notin> S)" by simp
  qed
  with Cons.IH [OF d] show ?case by (simp add: Let_def)
qed


lemma claimEach_eq:
  "claimEach rs (S, acc) = (S \<union> emailKey ` set rs, acc @ dedupeFilter S rs)"
  by (induction rs arbitrary: S acc) (auto simp: Let_def)

lemma dedupe_char:
  "deduplicateAllRecipients t c b =
     \<lparr>to = dedupeFilter {} t, cc = dedupeFilter (keysOf t) c, bcc = dedupeFilter (keysOf t \<union> keysOf c) b\<rparr>"
proof -
  have 1: "dedupeFilter {} (dedupeFilter {} t) = dedupeFilter {} t"
    by (simp add: dedupeFilter_distinct distinct_dedupeFilter)
  have 2: "dedupeFilter (keysOf t) (dedupeFilter {} c) = dedupeFilter (keysOf t) c"
    using dedupeFilter_seen [of "keysOf t" c] by (simp add: dedupeFilter_distinct distinct_dedupeFilter)
  have 3: "dedupeFilter (keysOf t \<union> keysOf c) (dedupeFilter {} b) = dedupeFilter (keysOf t \<union> keysOf c) b"
    using dedupeFilter_seen [of "keysOf t \<union> keysOf c" b] by (simp add: dedupeFilter_distinct distinct_dedupeFilter)
  show ?thesis
    by (simp add: deduplicateAllRecipients_def deduplicateWithinArray_def claimEach_eq
        keys_dedupeFilter 1 2 3)
qed

lemma filter_key_dedupeFilter:
  "filter (\<lambda>r. emailKey r = k) (dedupeFilter S rs) =
     (if k \<in> S then [] else take 1 (filter (\<lambda>r. emailKey r = k) rs))"
proof (induction rs arbitrary: S)
  case Nil
  show ?case by simp
next
  case (Cons r rs)
  show ?case by (auto simp: Let_def Cons.IH)
qed

lemma dedupeFilter_snoc:
  "dedupeFilter S (rs @ [r]) =
     dedupeFilter S rs @ (if emailKey r \<in> S \<union> emailKey ` set rs then [] else [r])"
  by (induction rs arbitrary: S) (auto simp: Let_def)

lemma perFieldDedupe_snoc:
  "perFieldDedupe (rs @ [r]) =
     perFieldDedupe rs @ (if emailKey r \<in> emailKey ` set rs then [] else [r])"
proof -
  have f: "filter (\<lambda>i. \<not> isLaterDuplicate (rs @ [r]) i) [0..<length rs] =
           filter (\<lambda>i. \<not> isLaterDuplicate rs i) [0..<length rs]"
    by (rule filter_cong) (auto simp: isLaterDuplicate_def nth_append)
  have m: "map (\<lambda>i. (rs @ [r]) ! i) (filter (\<lambda>i. \<not> isLaterDuplicate rs i) [0..<length rs]) =
           map (\<lambda>i. rs ! i) (filter (\<lambda>i. \<not> isLaterDuplicate rs i) [0..<length rs])"
    by (rule map_cong) (auto simp: nth_append)
  have l: "isLaterDuplicate (rs @ [r]) (length rs) = (emailKey r \<in> emailKey ` set rs)"
    by (simp add: isLaterDuplicate_def)
  show ?thesis
    by (simp add: perFieldDedupe_def f m l)
qed

lemma perFieldDedupe_eq: "perFieldDedupe rs = dedupeFilter {} rs"
proof (induction rs rule: rev_induct)
  case Nil
  show ?case by (simp add: perFieldDedupe_def)
next
  case (snoc r rs)
  show ?case by (simp add: perFieldDedupe_snoc dedupeFilter_snoc snoc.IH)
qed

lemma dedupe_refines:
  "deduplicateAllRecipients t c b = dedupeSpec t c b"
proof -
  let ?keptTo = "dedupeFilter {} t"
  let ?keptCc = "filter (\<lambda>r. emailKey r \<notin> emailKey ` set ?keptTo) (dedupeFilter {} c)"
  have kt: "emailKey ` set ?keptTo = keysOf t" by (simp add: keys_dedupeFilter)
  have cc: "?keptCc = dedupeFilter (keysOf t) c"
    unfolding kt by (rule dedupeFilter_seen [symmetric])
  have kc: "emailKey ` (set ?keptTo \<union> set ?keptCc) = keysOf t \<union> keysOf c"
  proof -
    have "emailKey ` set ?keptCc = keysOf c - keysOf t" unfolding cc by (rule keys_dedupeFilter)
    then show ?thesis by (simp only: image_Un kt) blast
  qed
  have bcc: "filter (\<lambda>r. emailKey r \<notin> emailKey ` (set ?keptTo \<union> set ?keptCc)) (dedupeFilter {} b)
      = dedupeFilter (keysOf t \<union> keysOf c) b"
    unfolding kc by (rule dedupeFilter_seen [symmetric])
  show ?thesis
    unfolding dedupeSpec_def crossFieldDedupe_def Let_def perFieldDedupe_eq dedupe_char bcc
    unfolding cc by (rule refl)
qed

lemma dedupe_idem:
  "deduplicateAllRecipients (to (deduplicateAllRecipients t c b)) (cc (deduplicateAllRecipients t c b)) (bcc (deduplicateAllRecipients t c b))
   = deduplicateAllRecipients t c b"
proof -
  have kc: "keysOf t \<union> (keysOf c - keysOf t) = keysOf t \<union> keysOf c" by blast
  have a: "dedupeFilter {} (dedupeFilter {} t) = dedupeFilter {} t"
    by (simp add: dedupeFilter_distinct distinct_dedupeFilter)
  have b: "dedupeFilter (keysOf t) (dedupeFilter (keysOf t) c) = dedupeFilter (keysOf t) c"
    by (simp add: dedupeFilter_distinct distinct_dedupeFilter) (simp add: dedupeFilter_seen [of "keysOf t" c])
  have c: "dedupeFilter (keysOf t \<union> keysOf c) (dedupeFilter (keysOf t \<union> keysOf c) b) = dedupeFilter (keysOf t \<union> keysOf c) b"
    by (simp add: dedupeFilter_distinct distinct_dedupeFilter) (simp add: dedupeFilter_seen [of "keysOf t \<union> keysOf c" b])
  show ?thesis
    by (simp add: dedupe_char keys_dedupeFilter kc a b c)
qed

section \<open>Properties of the matcher\<close>

lemma concI: "u \<in> A \<Longrightarrow> v \<in> B \<Longrightarrow> u @ v \<in> conc A B"
  by (auto simp: conc_def)

lemma conc_iff: "w \<in> conc A B \<longleftrightarrow> (\<exists>u v. w = u @ v \<and> u \<in> A \<and> v \<in> B)"
  by (auto simp: conc_def)

lemma Nil_in_conc: "[] \<in> conc A B \<longleftrightarrow> [] \<in> A \<and> [] \<in> B"
  by (auto simp: conc_def)

lemma Cons_in_conc:
  "c # w \<in> conc A B \<longleftrightarrow>
     (\<exists>u v. w = u @ v \<and> c # u \<in> A \<and> v \<in> B) \<or> ([] \<in> A \<and> c # w \<in> B)"
proof
  assume "c # w \<in> conc A B"
  then obtain x y where xy: "c # w = x @ y" "x \<in> A" "y \<in> B" by (auto simp: conc_def)
  show "(\<exists>u v. w = u @ v \<and> c # u \<in> A \<and> v \<in> B) \<or> ([] \<in> A \<and> c # w \<in> B)"
  proof (cases x)
    case Nil
    with xy show ?thesis by simp
  next
    case (Cons a u)
    with xy have "w = u @ y" "c # u \<in> A" by auto
    with xy show ?thesis by blast
  qed
next
  assume "(\<exists>u v. w = u @ v \<and> c # u \<in> A \<and> v \<in> B) \<or> ([] \<in> A \<and> c # w \<in> B)"
  then show "c # w \<in> conc A B"
  proof
    assume "\<exists>u v. w = u @ v \<and> c # u \<in> A \<and> v \<in> B"
    then obtain u v where "w = u @ v" "c # u \<in> A" "v \<in> B" by blast
    then show ?thesis using concI [of "c # u" A v B] by simp
  next
    assume "[] \<in> A \<and> c # w \<in> B"
    then show ?thesis using concI [of "[]" A "c # w" B] by simp
  qed
qed

lemma Cons_in_star:
  "c # w \<in> star A \<longleftrightarrow> (\<exists>u v. w = u @ v \<and> c # u \<in> A \<and> v \<in> star A)"
proof
  assume "c # w \<in> star A"
  then show "\<exists>u v. w = u @ v \<and> c # u \<in> A \<and> v \<in> star A"
  proof (induction "c # w" rule: star.induct)
    case (star_more u v)
    show ?case
    proof (cases u)
      case Nil
      with star_more show ?thesis by simp
    next
      case (Cons a u')
      with star_more have "w = u' @ v" "c # u' \<in> A" "v \<in> star A" by auto
      then show ?thesis by blast
    qed
  qed
next
  assume "\<exists>u v. w = u @ v \<and> c # u \<in> A \<and> v \<in> star A"
  then obtain u v where "w = u @ v" "c # u \<in> A" "v \<in> star A" by blast
  then show "c # w \<in> star A" using star_more [of "c # u" A v] by simp
qed

lemma upto_lang_mono: "upto_lang n A \<subseteq> upto_lang (Suc n) A"
proof (induction n)
  case 0
  show ?case by simp
next
  case (Suc n)
  have "conc A (upto_lang n A) \<subseteq> conc A (upto_lang (Suc n) A)"
  proof
    fix w assume "w \<in> conc A (upto_lang n A)"
    then obtain u v where "w = u @ v" "u \<in> A" "v \<in> upto_lang n A" by (auto simp: conc_iff)
    with Suc.IH show "w \<in> conc A (upto_lang (Suc n) A)" using concI [of u A v] by blast
  qed
  then show ?case by auto
qed

lemma Cons_in_upto_lang:
  "c # w \<in> upto_lang (Suc n) A \<longleftrightarrow> (\<exists>u v. w = u @ v \<and> c # u \<in> A \<and> v \<in> upto_lang n A)"
proof (induction n)
  case 0
  show ?case by (auto simp: Cons_in_conc)
next
  case (Suc n)
  have "c # w \<in> upto_lang (Suc (Suc n)) A \<longleftrightarrow> c # w \<in> conc A (upto_lang (Suc n) A)"
    by simp
  also have "\<dots> \<longleftrightarrow> (\<exists>u v. w = u @ v \<and> c # u \<in> A \<and> v \<in> upto_lang (Suc n) A)
                  \<or> ([] \<in> A \<and> c # w \<in> upto_lang (Suc n) A)"
    by (rule Cons_in_conc)
  also have "\<dots> \<longleftrightarrow> (\<exists>u v. w = u @ v \<and> c # u \<in> A \<and> v \<in> upto_lang (Suc n) A)"
    using Suc.IH upto_lang_mono [of n A] by blast
  finally show ?case .
qed

lemma nullable_iff: "nullable r \<longleftrightarrow> [] \<in> lang r"
proof (induction r)
  case (Upto n r)
  show ?case by (cases n) simp_all
qed (simp_all add: Nil_in_conc star_empty)

lemma lang_deriv: "w \<in> lang (deriv c r) \<longleftrightarrow> c # w \<in> lang r"
proof (induction r arbitrary: w)
  case (Seq r s)
  have A: "w \<in> conc (lang (deriv c r)) (lang s) \<longleftrightarrow>
           (\<exists>u v. w = u @ v \<and> c # u \<in> lang r \<and> v \<in> lang s)"
    by (simp add: conc_iff Seq.IH)
  show ?case by (simp add: Cons_in_conc nullable_iff A Seq.IH)
next
  case (Star r)
  have "w \<in> conc (lang (deriv c r)) (star (lang r)) \<longleftrightarrow>
        (\<exists>u v. w = u @ v \<and> c # u \<in> lang r \<and> v \<in> star (lang r))"
    by (simp add: conc_iff Star.IH)
  then show ?case by (simp add: Cons_in_star)
next
  case (Upto n r)
  show ?case
  proof (cases n)
    case 0
    then show ?thesis by simp
  next
    case (Suc m)
    have "w \<in> conc (lang (deriv c r)) (upto_lang m (lang r)) \<longleftrightarrow>
          (\<exists>u v. w = u @ v \<and> c # u \<in> lang r \<and> v \<in> upto_lang m (lang r))"
      by (simp add: conc_iff Upto.IH)
    then show ?thesis unfolding Suc by (simp only: deriv.simps lang.simps Cons_in_upto_lang)
  qed
qed auto

lemma rx_test_iff: "rx_test r s \<longleftrightarrow> s \<in> lang r"
proof -
  have "nullable (foldl (\<lambda>q c. deriv c q) r s) \<longleftrightarrow> s \<in> lang r"
    by (induction s arbitrary: r) (simp_all add: nullable_iff lang_deriv)
  then show ?thesis by (simp add: rx_test_def)
qed

section \<open>Properties of the e-mail pattern\<close>
















section \<open>Claims about deduplication\<close>

lemma toLowerCase_empty_iff: "toLowerCase s = [] \<longleftrightarrow> s = []"
  by (simp add: toLowerCase_def)

lemma emailKey_empty_iff: "emailKey r = [] \<longleftrightarrow> noEmail r"
  by (simp add: emailKey_def noEmail_def toLowerCase_empty_iff)

lemma filter_noEmail_dedupeFilter:
  "filter noEmail (dedupeFilter S rs) = (if [] \<in> S then [] else take 1 (filter noEmail rs))"
  using filter_key_dedupeFilter [of "[]" S rs] by (simp add: emailKey_empty_iff)

lemma empty_key_in_K: "[] \<in> keysOf rs \<longleftrightarrow> list_ex noEmail rs"
proof -
  have "[] \<in> keysOf rs \<longleftrightarrow> (\<exists>x \<in> set rs. emailKey x = [])" by (metis (mono_tags) imageE imageI)
  then show ?thesis by (simp add: list_ex_iff emailKey_empty_iff)
qed

text \<open>
  Claim C1.  For any three lists, \<open>deduplicateAllRecipients\<close> is the two phases of
  the specification: within each list every entry whose lower-cased email equals that
  of an earlier entry is dropped and the first occurrences keep their positions; then
  an entry of copy survives only when its normalized email was not kept in primary,
  and an entry of blind-copy only when it was kept in neither primary nor copy.  For
  \<^verbatim>\<open>a@x.com\<close> in all three lists the result keeps it in primary alone.
\<close>

theorem dedupe_two_phases:
  "deduplicateAllRecipients t c b = dedupeSpec t c b \<and>
   deduplicateAllRecipients [addressOnly ''a@x.com''] [addressOnly ''a@x.com'']
       [addressOnly ''a@x.com''] =
     \<lparr>to = [addressOnly ''a@x.com''], cc = [], bcc = []\<rparr>"
proof
  show "deduplicateAllRecipients t c b = dedupeSpec t c b" by (rule dedupe_refines)
  show "deduplicateAllRecipients [addressOnly ''a@x.com''] [addressOnly ''a@x.com'']
       [addressOnly ''a@x.com''] = \<lparr>to = [addressOnly ''a@x.com''], cc = [], bcc = []\<rparr>"
    by code_simp
qed

text \<open>
  Claim C5.  Dedupe is idempotent: run on its own output, it returns that output, so
  nothing further is removed from any of the three lists.
\<close>

theorem dedupe_idempotent:
  "dedupeBlock (dedupeBlock X) = dedupeBlock X"
  unfolding dedupeBlock_def by (rule dedupe_idem)



text \<open>
  Claim C10.  The key of an entry is the empty string exactly when its email is missing
  or empty.  Of all such entries Dedupe keeps at most one over the three lists: the
  first one of primary if primary has any, else the first one of copy if copy has any,
  else the first one of blind-copy.
\<close>

theorem one_entry_without_email_survives:
  "(emailKey r = [] \<longleftrightarrow> noEmail r) \<and>
   filter noEmail (to (deduplicateAllRecipients t c b)) = take 1 (filter noEmail t) \<and>
   filter noEmail (cc (deduplicateAllRecipients t c b)) =
     (if list_ex noEmail t then [] else take 1 (filter noEmail c)) \<and>
   filter noEmail (bcc (deduplicateAllRecipients t c b)) =
     (if list_ex noEmail t \<or> list_ex noEmail c then [] else take 1 (filter noEmail b)) \<and>
   length (filter noEmail (to (deduplicateAllRecipients t c b) @
       cc (deduplicateAllRecipients t c b) @ bcc (deduplicateAllRecipients t c b))) \<le> 1"
proof -
  let ?R = "deduplicateAllRecipients t c b"
  have a: "filter noEmail (to ?R) = take 1 (filter noEmail t)"
    by (simp add: dedupe_char filter_noEmail_dedupeFilter)
  have b: "filter noEmail (cc ?R) = (if list_ex noEmail t then [] else take 1 (filter noEmail c))"
    by (simp add: dedupe_char filter_noEmail_dedupeFilter empty_key_in_K)
  have c: "filter noEmail (bcc ?R) =
     (if list_ex noEmail t \<or> list_ex noEmail c then [] else take 1 (filter noEmail b))"
    by (simp add: dedupe_char filter_noEmail_dedupeFilter empty_key_in_K)
  have t: "list_ex noEmail t \<longleftrightarrow> filter noEmail t \<noteq> []"
    by (simp add: list_ex_iff filter_empty_conv)
  have c': "list_ex noEmail c \<longleftrightarrow> filter noEmail c \<noteq> []"
    by (simp add: list_ex_iff filter_empty_conv)
  have d: "length (filter noEmail (to ?R @ cc ?R @ bcc ?R)) \<le> 1"
    unfolding filter_append a b c by (auto simp: t c')
  from a b c d show ?thesis by (simp add: emailKey_empty_iff)
qed

section \<open>Properties of sorting\<close>

lemma mset_insertBy: "mset (insertBy cmp x ys) = add_mset x (mset ys)"
  by (induction ys) auto

lemma mset_arraySort: "mset (arraySort cmp xs) = mset xs"
  by (induction xs) (auto simp: arraySort_def mset_insertBy)

lemma arraySort_sorted: "sorted_wrt (\<lambda>a b. cmp a b \<le> 0) xs \<Longrightarrow> arraySort cmp xs = xs"
proof (induction xs)
  case Nil
  show ?case by (simp add: arraySort_def)
next
  case (Cons x xs)
  then have "arraySort cmp xs = xs" by simp
  then have "arraySort cmp (x # xs) = insertBy cmp x xs" by (simp add: arraySort_def)
  also have "\<dots> = x # xs" using Cons.prems by (cases xs) auto
  finally show ?case .
qed

text \<open>
  Claim C6.  Sort returns a permutation of its input: the same multiset of entries,
  hence the same length and the same members; sorting twice still has the contents of
  the input, and a list already in sort order is returned as it is.
\<close>

theorem sort_permutes:
  "mset (sortRecipientsAlphabetically lc rs) = mset rs \<and>
   length (sortRecipientsAlphabetically lc rs) = length rs \<and>
   set (sortRecipientsAlphabetically lc rs) = set rs \<and>
   mset (sortRecipientsAlphabetically lc (sortRecipientsAlphabetically lc rs)) = mset rs \<and>
   (inSortOrder lc rs \<longrightarrow> sortRecipientsAlphabetically lc rs = rs)"
proof -
  have m: "mset (sortRecipientsAlphabetically lc rs) = mset rs" for rs
    by (simp add: sortRecipientsAlphabetically_def mset_arraySort)
  have l: "length (sortRecipientsAlphabetically lc rs) = length rs"
    using m [of rs] by (rule mset_eq_length)
  have s: "set (sortRecipientsAlphabetically lc rs) = set rs"
    using m [of rs] by (rule mset_eq_setD)
  have i: "inSortOrder lc rs \<longrightarrow> sortRecipientsAlphabetically lc rs = rs"
    by (simp add: inSortOrder_def sortRecipientsAlphabetically_def arraySort_sorted)
  from m l s i show ?thesis by simp
qed

text \<open>
  An instance with the code-unit collator: a list in sort order is returned unchanged,
  and a list out of order keeps its contents.
\<close>

theorem sort_permutes_witness:
  "inSortOrder codeUnitCompare [named ''Al'' ''z@x.com'', named ''bob'' ''a@x.com''] \<and>
   sortRecipientsAlphabetically codeUnitCompare [named ''Al'' ''z@x.com'', named ''bob'' ''a@x.com'']
     = [named ''Al'' ''z@x.com'', named ''bob'' ''a@x.com''] \<and>
   mset (sortRecipientsAlphabetically codeUnitCompare [named ''bob'' ''a@x.com'', named ''Al'' ''z@x.com''])
     = mset [named ''bob'' ''a@x.com'', named ''Al'' ''z@x.com'']"
proof -
  have h: "inSortOrder codeUnitCompare [named ''Al'' ''z@x.com'', named ''bob'' ''a@x.com'']"
    by code_simp
  from h sort_permutes [of codeUnitCompare "[named ''Al'' ''z@x.com'', named ''bob'' ''a@x.com'']"]
    sort_permutes [of codeUnitCompare "[named ''bob'' ''a@x.com'', named ''Al'' ''z@x.com'']"]
  show ?thesis by blast
qed

section \<open>Claims about validation\<close>







text \<open>A local part of 65 characters is kept.\<close>

lemma long_local_part_kept:
  "length (replicate 65 (CHR ''a'')) = 65 \<and>
   isValidEmail (replicate 65 (CHR ''a'') @ ''@b.co'')"
  by code_simp

lemma star_append: "u \<in> star A \<Longrightarrow> v \<in> star A \<Longrightarrow> u @ v \<in> star A"
  by (induction rule: star.induct) (auto intro: star_more)

lemma star_replicate: "x \<in> A \<Longrightarrow> concat (replicate k x) \<in> star A"
  by (induction k) (auto intro: star_empty star_more)

lemma short_labels: "''b'' \<in> lang labelRegex" "''co'' \<in> lang labelRegex"
proof -
  have "rx_test labelRegex ''b''" by code_simp
  then show "''b'' \<in> lang labelRegex" by (simp only: rx_test_iff)
  have "rx_test labelRegex ''co''" by code_simp
  then show "''co'' \<in> lang labelRegex" by (simp only: rx_test_iff)
qed

lemma long_domain_in_lang: "''b'' @ concat (replicate k ''.b'') @ ''.co'' \<in> lang domainRegex"
proof -
  let ?S = "conc (lang (Chr (CHR ''.''))) (lang labelRegex)"
  have dot: "''.'' \<in> lang (Chr (CHR ''.''))" by (simp add: Chr_def)
  have b: "''.b'' \<in> ?S" using concI [OF dot short_labels(1)] by simp
  have co: "''.co'' \<in> ?S" using concI [OF dot short_labels(2)] by simp
  have "''.co'' \<in> star ?S" using star_more [OF co star_empty] by simp
  with star_replicate [OF b, of k] have "concat (replicate k ''.b'') @ ''.co'' \<in> star ?S"
    by (rule star_append)
  from concI [OF short_labels(1) this] show ?thesis by (simp only: domainRegex_def lang.simps)
qed

text \<open>A domain part of 254 characters is kept.\<close>

lemma long_domain_part_kept:
  "length (concat (replicate 126 ''b.'') @ ''co'') = 254 \<and>
   isValidEmail (''a@'' @ concat (replicate 126 ''b.'') @ ''co'')"
proof -
  define D where "D = concat (replicate 126 ''b.'') @ ''co''"
  define E where "E = ''a@'' @ D"
  have len: "length D = 254" unfolding D_def by code_simp
  have shape: "D = ''b'' @ concat (replicate 125 ''.b'') @ ''.co''" unfolding D_def by code_simp
  have "D \<in> lang domainRegex" unfolding shape by (rule long_domain_in_lang)
  moreover have "''a'' \<in> lang (Many1 (Cls isLocalChar))"
  proof -
    have "rx_test (Many1 (Cls isLocalChar)) ''a''" by code_simp
    then show ?thesis by (simp only: rx_test_iff)
  qed
  moreover have "''@'' \<in> lang (Chr (CHR ''@''))" by (simp add: Chr_def)
  ultimately have "''a'' @ ''@'' @ D \<in> lang emailRegex"
    unfolding emailRegex_def lang.simps by (intro concI)
  then have rx: "rx_test emailRegex E" by (simp add: rx_test_iff E_def)
  have c1: "E \<noteq> []" by (simp add: E_def)
  have c2: "str_includes E ''@''" by (simp add: E_def)
  have c3: "splitOn (CHR ''@'') E = [''a'', D]" unfolding E_def D_def by code_simp
  have c4: "D \<noteq> []" using len by auto
  have c5: "str_includes D ''.''" unfolding D_def by code_simp
  have c6: "\<not> str_includes E ''..''" unfolding E_def D_def by code_simp
  have "isValidEmail E" by (simp add: isValidEmail_def c1 c2 c3 c4 c5 c6 rx)
  with len show ?thesis by (simp add: E_def D_def)
qed

section \<open>Claims about the quick-clean command\<close>

lemma dropWhile_empty_iff: "dropWhile P xs = [] \<longleftrightarrow> list_all P xs"
  by (induction xs) auto

lemma trim_empty_iff: "trim d = [] \<longleftrightarrow> blank d"
proof -
  have "trim d = [] \<longleftrightarrow> dropWhile isWhiteSpace (rev (dropWhile isWhiteSpace d)) = []"
    by (simp add: trim_def)
  also have "\<dots> \<longleftrightarrow> list_all isWhiteSpace (dropWhile isWhiteSpace d)"
    by (simp add: dropWhile_empty_iff list_all_iff)
  also have "\<dots> \<longleftrightarrow> list_all isWhiteSpace d"
    by (induction d) auto
  finally show ?thesis by (simp add: blank_def)
qed

text \<open>
  What the fallback does: the enabled ones of Validate, Dedupe and Sort, in that
  order whatever the stored order is, each on the lists the one before left; a name
  with no step function changes nothing; and the processors library is handed the
  stored order filtered by the enabled steps.
\<close>

lemma fallback_fixed_order:
  "fallbackClean lc s X =
     runInOrder lc (filter (\<lambda>name. name \<in> set (enabledSteps s)) [''validate'', ''dedupe'', ''sort'']) X \<and>
   (stepFunction lc name = None \<longrightarrow>
      fallbackClean lc (s\<lparr>enabledSteps := name # enabledSteps s\<rparr>) X = fallbackClean lc s X) \<and>
   us_enabledSteps (userSettings (buildPayload s X)) =
     filter (\<lambda>step. step \<in> set (enabledSteps s))
       (case stepOrder s of Some order \<Rightarrow> order | None \<Rightarrow> enabledSteps s)"
proof -
  have sf: "stepFunction lc ''validate'' = Some validateBlock"
      "stepFunction lc ''dedupe'' = Some dedupeBlock"
      "stepFunction lc ''sort'' = Some (sortBlock lc)"
    by (simp_all add: stepFunction_def)
  have 1: "fallbackClean lc s X =
     runInOrder lc (filter (\<lambda>name. name \<in> set (enabledSteps s)) [''validate'', ''dedupe'', ''sort'']) X"
    by (simp add: fallbackClean_def Let_def sf)
  have 2: "stepFunction lc name = None \<longrightarrow>
      fallbackClean lc (s\<lparr>enabledSteps := name # enabledSteps s\<rparr>) X = fallbackClean lc s X"
    by (auto simp: fallbackClean_def Let_def stepFunction_def split: if_splits)
  have 3: "us_enabledSteps (userSettings (buildPayload s X)) =
     filter (\<lambda>step. step \<in> set (enabledSteps s))
       (case stepOrder s of Some order \<Rightarrow> order | None \<Rightarrow> enabledSteps s)"
    by (simp add: buildPayload_def enabledStepsInOrder_def)
  from 1 2 3 show ?thesis by blast
qed





text \<open>
  Claim C8, as amended.  The internal domains handed to the processors library are the
  stored ones without the empty, the blank and the placeholder \<^verbatim>\<open>mydomain.com\<close>
  entries, in the stored order; duplicates stay.
\<close>

theorem domains_filtered:
  "us_internalDomains (userSettings (buildPayload s X)) =
     filter keepsDomain (case internalDomains s of Some ds \<Rightarrow> ds | None \<Rightarrow> []) \<and>
   (\<forall>d \<in> set (us_internalDomains (userSettings (buildPayload s X))).
      d \<noteq> [] \<and> d \<noteq> ''mydomain.com'' \<and> \<not> blank d)"
  by (simp add: buildPayload_def keepsDomain_def trim_empty_iff)

text \<open>
  An instance: of five stored entries the two real domains remain.
\<close>

theorem domains_filtered_witness:
  "us_internalDomains (userSettings (buildPayload
      \<lparr>enabledSteps = [], stepOrder = None, orgDomain = None,
       internalDomains = Some [''corp.com'', '' '', ''mydomain.com'', [], ''b.org'']\<rparr>
      \<lparr>to = [], cc = [], bcc = []\<rparr>)) =
     [''corp.com'', ''b.org''] \<and>
   \<not> blank ''corp.com'' \<and> \<not> blank ''b.org''"
proof -
  let ?s = "\<lparr>enabledSteps = [], stepOrder = None, orgDomain = None,
       internalDomains = Some [''corp.com'', '' '', ''mydomain.com'', [], ''b.org'']\<rparr>"
  have k: "filter keepsDomain [''corp.com'', '' '', ''mydomain.com'', [], ''b.org''] =
      [''corp.com'', ''b.org'']"
    by code_simp
  from domains_filtered [of ?s "\<lparr>to = [], cc = [], bcc = []\<rparr>"] k show ?thesis by simp
qed

text \<open>
  Claim C8 as stated fails: a domain stored twice is handed over twice.
\<close>

theorem duplicate_domains_counterexample:
  "us_internalDomains (userSettings (buildPayload
      \<lparr>enabledSteps = [], stepOrder = None, orgDomain = None,
       internalDomains = Some [''corp.com'', ''corp.com'']\<rparr>
      \<lparr>to = [], cc = [], bcc = []\<rparr>)) = [''corp.com'', ''corp.com''] \<and>
   \<not> distinct [''corp.com'', ''corp.com'']"
  by code_simp

end
